theory Spec2Isabelle
  imports Main
begin

section \<open>AxSync: parallel range-chunked downloads (axsync-multithread.py)\<close>

text \<open>
  The script downloads every file linked from a directory-listing page. Each file is
  split into byte ranges that are fetched by a pool of threads into temporary part
  files, which are then concatenated into the final file.

  The network, the HTML parser, the URL parser and the thread scheduler are outside
  the script: they are parameters of the model (record \<open>env\<close>). What the script
  itself changes (files, created folders, printed lines, requests sent) is an explicit
  state (record \<open>world\<close>) that every operation takes and returns.
\<close>

subsection \<open>Values, exceptions, state\<close>

text \<open>The content of a file is a list of bytes; a byte is a \<open>char\<close> (8 bits in HOL).\<close>

type_synonym bytes = "char list"

text \<open>
  The exceptions that can travel through the script, all of them of Python's class
  \<open>Exception\<close>.
\<close>

datatype exn =
    ZeroDivisionError
  | IndexError
  | FileNotFoundError
  | NotADirectoryError
  | PermissionError
  | OSError
  | ValueError
  | ConnectionError
  | HTTPError

text \<open>A call either returns or raises.\<close>

datatype outcome = Returned | Raised exn

text \<open>The requests sent to the network, in the order they are issued.\<close>

datatype request =
    Head string
  | GetRange string int int
  | GetPage string

text \<open>The lines the script prints.\<close>

datatype message =
    Success string
  | ErrorMsg string exn
  | PrintFolder string
  | PrintUrl string
  | PrintDest string

record world =
  files :: "string \<Rightarrow> bytes option"
  dirs :: "string set"
  stdout :: "message list"
  requests :: "request list"

text \<open>
  The environment. \<open>http_head\<close> is \<open>requests.head\<close> followed by reading the
  \<open>content-length\<close> header as an integer (absent: \<open>None\<close>; a failure of the
  request or of \<open>int\<close> is the \<open>Inl\<close> case). \<open>http_get_range\<close> is the ranged
  \<open>requests.get\<close> of \<open>download_chunk\<close>: \<open>Inl\<close> when the request or
  \<open>raise_for_status\<close> fails (before the part file is opened), otherwise the bytes
  streamed into the part file and, when the stream breaks, the exception that ends
  it. \<open>http_get_page\<close> is the \<open>requests.get\<close> of the listing page and
  \<open>find_all_a\<close> gives the \<open>href\<close> of every anchor BeautifulSoup finds
  (\<open>None\<close> for an anchor without one). \<open>finish_time\<close> is the moment at which the
  future of a chunk of a URL, given by its index, completes, and \<open>urlparse_path\<close> is
  \<open>urlparse(url).path\<close>. \<open>makedirs_error\<close> is what \<open>os.makedirs\<close> raises for a
  path that is not empty (a name that is too long, a file in the way, a missing
  permission), \<open>None\<close> when it creates the folder. The environment answers a request
  the same way each time it is sent.

  Of the file system the files and the folders are kept (\<open>dirs\<close> are the folders
  that exist). Opening a file for writing is taken to succeed.
\<close>

record env =
  http_head :: "string \<Rightarrow> exn + int option"
  http_get_range :: "string \<Rightarrow> int \<Rightarrow> int \<Rightarrow> exn + (bytes \<times> exn option)"
  http_get_page :: "string \<Rightarrow> exn + string"
  find_all_a :: "string \<Rightarrow> string option list"
  finish_time :: "string \<Rightarrow> nat \<Rightarrow> nat"
  urlparse_path :: "string \<Rightarrow> string"
  makedirs_error :: "string \<Rightarrow> exn option"

subsection \<open>The partition step of \<open>download_file\<close> (lines 42 to 44)\<close>

text \<open>
  \<^verbatim>\<open>
  chunk_size = total_size // num_threads
  ranges = [(i * chunk_size, (i + 1) * chunk_size - 1) for i in range(num_threads)]
  ranges[-1] = (ranges[-1][0], total_size - 1)
  \<close>
  Python's \<open>//\<close> on integers is floor division, as \<open>div\<close> on \<open>int\<close>, and raises
  on a zero divisor. \<open>range\<close> of a negative number is empty, and \<open>ranges[-1]\<close> on
  the empty list raises.
\<close>

definition compute_ranges :: "int \<Rightarrow> int \<Rightarrow> exn + (int \<times> int) list" where
  "compute_ranges total_size num_threads =
     (if num_threads = 0 then Inl ZeroDivisionError
      else
        let chunk_size = total_size div num_threads;
            ranges = map (\<lambda>i. (int i * chunk_size, (int i + 1) * chunk_size - 1))
                         [0..<nat num_threads]
        in if ranges = [] then Inl IndexError
           else Inr (ranges[length ranges - 1 :=
                       (fst (ranges ! (length ranges - 1)), total_size - 1)]))"

text \<open>The number of bytes an inclusive range \<open>(start, end)\<close> asks for.\<close>

definition range_len :: "int \<times> int \<Rightarrow> int" where
  "range_len r = snd r - fst r + 1"

subsection \<open>Strings and paths\<close>

text \<open>
  \<open>str.startswith\<close>, \<open>str.endswith\<close>, \<open>str.strip\<close> with one character to strip and
  \<open>str.split\<close> with a one-character separator. \<open>split\<close> never returns the empty
  list: the empty string splits into one empty segment.
\<close>

definition startswith :: "string \<Rightarrow> string \<Rightarrow> bool" where
  "startswith s p = (take (length p) s = p)"

definition endswith :: "string \<Rightarrow> string \<Rightarrow> bool" where
  "endswith s p = (length p \<le> length s \<and> drop (length s - length p) s = p)"

definition strip :: "char \<Rightarrow> string \<Rightarrow> string" where
  "strip c s = rev (dropWhile (\<lambda>x. x = c) (rev (dropWhile (\<lambda>x. x = c) s)))"

fun split :: "char \<Rightarrow> string \<Rightarrow> string list" where
  "split c [] = [[]]"
| "split c (x # xs) =
     (if x = c then [] # split c xs
      else (case split c xs of [] \<Rightarrow> [[x]] | seg # segs \<Rightarrow> (x # seg) # segs))"

text \<open>\<open>os.path.join\<close> of two components and \<open>os.path.basename\<close>, as on POSIX.\<close>

definition path_join :: "string \<Rightarrow> string \<Rightarrow> string" where
  "path_join a b =
     (if startswith b ''/'' then b
      else if a = [] \<or> endswith a ''/'' then a @ b
      else a @ ''/'' @ b)"

definition basename :: "string \<Rightarrow> string" where
  "basename p = rev (takeWhile (\<lambda>x. x \<noteq> CHR ''/'') (rev p))"

text \<open>The decimal digits of a natural number, as an f-string prints it.\<close>

definition digit :: "nat \<Rightarrow> char" where
  "digit d = char_of (48 + d)"

fun str_nat :: "nat \<Rightarrow> string" where
  "str_nat n = (if n < 10 then [digit n] else str_nat (n div 10) @ [digit (n mod 10)])"

declare str_nat.simps [simp del]

subsection \<open>\<open>download_chunk\<close>\<close>

text \<open>
  One ranged GET. When the request or its status check fails nothing is written; when
  the stream breaks the bytes received so far stay in the part file.
\<close>

definition download_chunk ::
  "env \<Rightarrow> string \<Rightarrow> int \<Rightarrow> int \<Rightarrow> string \<Rightarrow> nat \<Rightarrow> world \<Rightarrow> (exn + string) \<times> world" where
  "download_chunk env url start endpos file_name part_number w =
     (let w1 = w\<lparr>requests := requests w @ [GetRange url start endpos]\<rparr> in
      case http_get_range env url start endpos of
        Inl x \<Rightarrow> (Inl x, w1)
      | Inr (body, broken) \<Rightarrow>
          let part_file = file_name @ ''.part'' @ str_nat part_number;
              w2 = w1\<lparr>files := (files w1)(part_file \<mapsto> body)\<rparr>
          in (case broken of None \<Rightarrow> (Inr part_file, w2) | Some x \<Rightarrow> (Inl x, w2)))"

subsection \<open>\<open>combine_parts\<close>\<close>

text \<open>
  \<^verbatim>\<open>
  with open(file_name, 'wb') as f:
      for part in parts:
          with open(part, 'rb') as p:
              f.write(p.read())
          os.remove(part)
  \<close>
  \<open>out\<close> is what has been written through the handle \<open>f\<close> so far. Opening for
  writing creates or empties the file. A write reaches the file as long as its name
  has not been removed; opening a part that does not exist raises.
\<close>

definition write_through :: "string \<Rightarrow> bytes \<Rightarrow> world \<Rightarrow> world" where
  "write_through file_name out w =
     (if files w file_name = None then w
      else w\<lparr>files := (files w)(file_name \<mapsto> out)\<rparr>)"

fun combine_loop :: "string \<Rightarrow> string list \<Rightarrow> bytes \<Rightarrow> world \<Rightarrow> outcome \<times> world" where
  "combine_loop file_name [] out w = (Returned, w)"
| "combine_loop file_name (part # parts) out w =
     (case files w part of
        None \<Rightarrow> (Raised FileNotFoundError, w)
      | Some data \<Rightarrow>
          let w1 = write_through file_name (out @ data) w;
              w2 = w1\<lparr>files := (files w1)(part := None)\<rparr>
          in combine_loop file_name parts (out @ data) w2)"

definition combine_parts :: "string \<Rightarrow> string list \<Rightarrow> world \<Rightarrow> outcome \<times> world" where
  "combine_parts file_name parts w =
     combine_loop file_name parts [] (w\<lparr>files := (files w)(file_name \<mapsto> [])\<rparr>)"

subsection \<open>\<open>download_file\<close>\<close>

text \<open>
  Every range is submitted to the pool, in index order; each chunk writes a part file
  of its own, and the pool is left only when every chunk has ended, also when one of
  them failed. \<open>submit_chunks\<close> gives the result of every future, by index.
\<close>

fun submit_chunks ::
  "env \<Rightarrow> string \<Rightarrow> string \<Rightarrow> nat \<Rightarrow> (int \<times> int) list \<Rightarrow> world
     \<Rightarrow> (exn + string) list \<times> world" where
  "submit_chunks env url file_name i [] w = ([], w)"
| "submit_chunks env url file_name i (r # rs) w =
     (let (res, w1) = download_chunk env url (fst r) (snd r) file_name i w;
          (rest, w2) = submit_chunks env url file_name (Suc i) rs w1
      in (res # rest, w2))"

text \<open>
  \<^verbatim>\<open>
  for future in as_completed(futures):
      part_file = future.result()
      parts.append(part_file)
  \<close>
  The futures are visited in the order they complete, which is any order: the indices
  \<open>0, \<dots>, n - 1\<close> sorted by the moment their futures complete. \<open>result\<close> raises
  what the chunk raised. (The progress bar is not modelled.)
\<close>

definition as_completed :: "env \<Rightarrow> string \<Rightarrow> nat \<Rightarrow> nat list" where
  "as_completed env url n = sort_key (finish_time env url) [0..<n]"

fun gather :: "(exn + string) list \<Rightarrow> nat list \<Rightarrow> string list \<Rightarrow> exn + string list" where
  "gather futures [] parts = Inr parts"
| "gather futures (k # ks) parts =
     (case futures ! k of
        Inl x \<Rightarrow> Inl x
      | Inr part_file \<Rightarrow> gather futures ks (parts @ [part_file]))"

definition download_file :: "env \<Rightarrow> string \<Rightarrow> string \<Rightarrow> int \<Rightarrow> world \<Rightarrow> outcome \<times> world" where
  "download_file env url file_name num_threads w =
     (let w1 = w\<lparr>requests := requests w @ [Head url]\<rparr> in
      case http_head env url of
        Inl x \<Rightarrow> (Raised x, w1)
      | Inr content_length \<Rightarrow>
          let total_size = (case content_length of None \<Rightarrow> 0 | Some v \<Rightarrow> v) in
          (case compute_ranges total_size num_threads of
             Inl x \<Rightarrow> (Raised x, w1)
           | Inr ranges \<Rightarrow>
               let (futures, w2) = submit_chunks env url file_name 0 ranges w1 in
               (case gather futures (as_completed env url (length futures)) [] of
                  Inl x \<Rightarrow> (Raised x, w2)
                | Inr parts \<Rightarrow>
                    (case combine_parts file_name parts w2 of
                       (Raised x, w3) \<Rightarrow> (Raised x, w3)
                     | (Returned, w3) \<Rightarrow>
                         (Returned,
                          w3\<lparr>stdout := stdout w3 @ [Success (basename file_name)]\<rparr>)))))"

subsection \<open>\<open>download_directory\<close>\<close>

text \<open>
  The test of line 80, on the \<open>href\<close> of an anchor:
  \<^verbatim>\<open>
  if not file_name or file_name.startswith('?') or file_name.endswith('/') or file_name == '../':
      continue
  \<close>
  \<open>not file_name\<close> holds of \<open>None\<close> (an anchor without \<open>href\<close>) and of the empty
  string.
\<close>

definition skip_link :: "string option \<Rightarrow> bool" where
  "skip_link href =
     (case href of
        None \<Rightarrow> True
      | Some file_name \<Rightarrow>
          file_name = [] \<or> startswith file_name ''?'' \<or> endswith file_name ''/''
          \<or> file_name = ''../'')"

text \<open>
  The loop over the anchors (lines 76 to 93). \<open>except Exception\<close> catches whatever
  \<open>download_file\<close> raises, prints a line and goes on with the next anchor. The
  \<open>href\<close> is read (\<open>the href\<close>) only once the test has excluded \<open>None\<close>.
\<close>

fun download_links ::
  "env \<Rightarrow> string \<Rightarrow> string \<Rightarrow> int \<Rightarrow> string option list \<Rightarrow> world \<Rightarrow> outcome \<times> world" where
  "download_links env base_url destination_folder num_threads [] w = (Returned, w)"
| "download_links env base_url destination_folder num_threads (href # links) w =
     (if skip_link href
      then download_links env base_url destination_folder num_threads links w
      else
        let file_name = the href;
            file_url = base_url @ file_name;
            file_path = path_join destination_folder file_name
        in (case download_file env file_url file_path num_threads w of
              (Returned, w1) \<Rightarrow>
                download_links env base_url destination_folder num_threads links w1
            | (Raised e, w1) \<Rightarrow>
                download_links env base_url destination_folder num_threads links
                  (w1\<lparr>stdout := stdout w1 @ [ErrorMsg file_name e]\<rparr>)))"

text \<open>
  Lines 72 and 73:
  \<^verbatim>\<open>
  if not os.path.exists(destination_folder):
      os.makedirs(destination_folder)
  \<close>
  \<open>os.path.exists\<close> holds of a folder and of a file. \<open>os.makedirs\<close> of the empty
  path raises \<open>FileNotFoundError\<close>; of another path it raises what the environment
  says, or creates the folder.
\<close>

definition path_exists :: "world \<Rightarrow> string \<Rightarrow> bool" where
  "path_exists w path = (path \<in> dirs w \<or> files w path \<noteq> None)"

definition makedirs :: "env \<Rightarrow> string \<Rightarrow> world \<Rightarrow> outcome \<times> world" where
  "makedirs env path w =
     (if path = [] then (Raised FileNotFoundError, w)
      else (case makedirs_error env path of
              Some x \<Rightarrow> (Raised x, w)
            | None \<Rightarrow> (Returned, w\<lparr>dirs := insert path (dirs w)\<rparr>)))"

definition ensure_folder :: "env \<Rightarrow> string \<Rightarrow> world \<Rightarrow> outcome \<times> world" where
  "ensure_folder env destination_folder w =
     (if path_exists w destination_folder then (Returned, w)
      else makedirs env destination_folder w)"

text \<open>
  The listing page is fetched, and the folder created, outside any \<open>try\<close>: what
  \<open>requests.get\<close> or \<open>os.makedirs\<close> raises leaves \<open>download_directory\<close>. The
  status of the response is not checked.
\<close>

definition download_directory ::
  "env \<Rightarrow> string \<Rightarrow> string \<Rightarrow> int \<Rightarrow> world \<Rightarrow> outcome \<times> world" where
  "download_directory env base_url destination_folder num_threads w =
     (let w1 = w\<lparr>requests := requests w @ [GetPage base_url]\<rparr> in
      case http_get_page env base_url of
        Inl x \<Rightarrow> (Raised x, w1)
      | Inr page \<Rightarrow>
          let links = find_all_a env page in
          (case ensure_folder env destination_folder w1 of
             (Raised x, w2) \<Rightarrow> (Raised x, w2)
           | (Returned, w2) \<Rightarrow>
               download_links env base_url destination_folder num_threads links w2))"

subsection \<open>\<open>process_urls_from_file\<close>\<close>

text \<open>
  Lines 104 to 106, on the path of the parsed URL:
  \<^verbatim>\<open>
  path_segments = parsed_url.path.strip('/').split('/')
  folder_name = path_segments[-1] if path_segments else "default_folder"
  \<close>
\<close>

definition folder_name_of_path :: "string \<Rightarrow> string" where
  "folder_name_of_path path =
     (let path_segments = split CHR ''/'' (strip CHR ''/'' path)
      in if path_segments \<noteq> [] then last path_segments else ''default_folder'')"


subsection \<open>What is observed of a run\<close>

text \<open>The URLs of the \<open>HEAD\<close> requests of a run: one per call of \<open>download_file\<close>.\<close>

fun head_urls :: "request list \<Rightarrow> string list" where
  "head_urls [] = []"
| "head_urls (Head url # rs) = url # head_urls rs"
| "head_urls (GetRange url s e # rs) = head_urls rs"
| "head_urls (GetPage url # rs) = head_urls rs"

fun request_url :: "request \<Rightarrow> string" where
  "request_url (Head url) = url"
| "request_url (GetRange url s e) = url"
| "request_url (GetPage url) = url"

text \<open>The file names for which the loop of \<open>download_directory\<close> calls \<open>download_file\<close>.\<close>

definition discovered_files :: "string option list \<Rightarrow> string list" where
  "discovered_files links = map the (filter (\<lambda>href. \<not> skip_link href) links)"




text \<open>
  A printed line reports on a file: the success line of \<open>download_file\<close>, or the
  error line of the \<open>except\<close> branch.
\<close>

definition reports :: "string \<Rightarrow> string \<Rightarrow> message \<Rightarrow> bool" where
  "reports destination_folder file_name m =
     (case m of
        Success name \<Rightarrow> name = basename (path_join destination_folder file_name)
      | ErrorMsg name e \<Rightarrow> name = file_name
      | PrintFolder x \<Rightarrow> False | PrintUrl x \<Rightarrow> False | PrintDest x \<Rightarrow> False)"

subsection \<open>A small server, for the examples\<close>

text \<open>
  Every file of the server has the two bytes \<open>xy\<close>. The ranged requests for
  \<open>a.bin\<close> are refused, the host \<open>down\<close> cannot be reached, the listing pages
  of \<open>http://up/\<close> and \<open>http://up/empty/\<close> have no anchor, every folder with a name
  can be created, and the future of the first chunk of a file completes after the
  others.
\<close>

definition empty_world :: world where
  "empty_world = \<lparr>files = (\<lambda>p. None), dirs = {}, stdout = [], requests = []\<rparr>"

definition serve_range :: "bytes \<Rightarrow> int \<Rightarrow> int \<Rightarrow> bytes" where
  "serve_range content start endpos = take (nat (endpos - start + 1)) (drop (nat start) content)"

definition two_parts_world :: world where
  "two_parts_world =
     empty_world\<lparr>files := [''f.part0'' \<mapsto> ''x'', ''f.part1'' \<mapsto> ''y'']\<rparr>"

definition demo_env :: env where
  "demo_env =
     \<lparr>http_head = (\<lambda>url. Inr (Some 2)),
      http_get_range = (\<lambda>url start endpos.
         if url = ''http://up/pub/a.bin'' then Inl HTTPError
         else Inr (serve_range ''xy'' start endpos, None)),
      http_get_page = (\<lambda>url.
         if url = ''http://down/'' then Inl ConnectionError
         else if url = ''http://up/empty/'' \<or> url = ''http://up/'' then Inr ''<html></html>''
         else Inr ''listing''),
      find_all_a = (\<lambda>page.
         if page = ''listing'' then [Some ''a.bin'', Some ''../'', Some ''b.bin''] else []),
      finish_time = (\<lambda>url i. if i = 0 then 1 else 0),
      urlparse_path = (\<lambda>url.
         if url = ''http://up/pub/'' then ''/pub/''
         else if url = ''http://up/empty/'' then ''/empty/''
         else ''/''),
      makedirs_error = (\<lambda>path. None)\<rparr>"

subsection \<open>Facts about the partition step\<close>

lemma compute_ranges_Inr:
  assumes "1 \<le> n"
  shows "compute_ranges t n =
           Inr ((map (\<lambda>i. (int i * (t div n), (int i + 1) * (t div n) - 1)) [0..<nat n])
                  [nat n - 1 := (int (nat n - 1) * (t div n), t - 1)])"
proof -
  from assms have "0 < nat n" by simp
  then have ne: "[0..<nat n] \<noteq> []" by simp
  from \<open>0 < nat n\<close> have lt: "nat n - 1 < nat n" by simp
  show ?thesis
    using assms ne lt by (simp add: compute_ranges_def Let_def)
qed

lemma compute_ranges_length:
  assumes "1 \<le> n" and "compute_ranges t n = Inr rs"
  shows "length rs = nat n"
  using assms by (auto simp: compute_ranges_Inr)

lemma compute_ranges_nth:
  assumes "1 \<le> n" and "compute_ranges t n = Inr rs" and "i < nat n"
  shows "rs ! i = (int i * (t div n),
                   if i = nat n - 1 then t - 1 else (int i + 1) * (t div n) - 1)"
proof -
  from assms(1,2) have rs: "rs = (map (\<lambda>i. (int i * (t div n), (int i + 1) * (t div n) - 1))
      [0..<nat n])[nat n - 1 := (int (nat n - 1) * (t div n), t - 1)]"
    by (simp add: compute_ranges_Inr)
  show ?thesis
    using assms(3) by (auto simp: rs nth_list_update)
qed

text \<open>
  C6. For every total size at least 0 and every thread count at least 1, the partition
  step returns a list of ranges, and the end offset of its last range is the total
  size minus one, whether or not the thread count divides the total size.
\<close>

theorem last_range_end:
  assumes "0 \<le> total_size" and "1 \<le> num_threads"
  shows "\<exists>rs. compute_ranges total_size num_threads = Inr rs \<and> rs \<noteq> [] \<and>
              snd (last rs) = total_size - 1"
proof -
  obtain rs where rs: "compute_ranges total_size num_threads = Inr rs"
    using assms(2) by (simp add: compute_ranges_Inr)
  have len: "length rs = nat num_threads"
    using assms(2) rs by (rule compute_ranges_length)
  with assms(2) have ne: "rs \<noteq> []" by auto
  have "last rs = rs ! (nat num_threads - 1)"
    using ne len by (simp add: last_conv_nth)
  also have "snd \<dots> = total_size - 1"
    using assms(2) by (subst compute_ranges_nth [OF assms(2) rs]) auto
  finally show ?thesis using rs ne by simp
qed

theorem last_range_end_witness:
  "(0::int) \<le> 10 \<and> (1::int) \<le> 3 \<and>
   (\<exists>rs. compute_ranges 10 3 = Inr rs \<and> rs \<noteq> [] \<and> snd (last rs) = 10 - 1)"
  using last_range_end [of 10 3] by simp

lemma compute_ranges_append:
  assumes "1 \<le> n"
  shows "compute_ranges t n =
           Inr (map (\<lambda>i. (int i * (t div n), (int i + 1) * (t div n) - 1)) [0..<nat n - 1]
                @ [(int (nat n - 1) * (t div n), t - 1)])"
proof -
  from assms obtain k where k: "nat n = Suc k"
    by (cases "nat n") auto
  show ?thesis
    unfolding compute_ranges_Inr [OF assms] k
    by (simp add: list_update_append)
qed

lemma concat_chunks:
  assumes "0 \<le> c"
  shows "concat (map (\<lambda>r. [fst r..snd r])
           (map (\<lambda>i. (int i * c, (int i + 1) * c - 1)) [0..<k])) = [0..int k * c - 1]"
proof (induction k)
  case 0
  show ?case by simp
next
  case (Suc k)
  have le: "int k * c \<le> (int k + 1) * c"
    using assms by (simp add: algebra_simps)
  have nn: "0 \<le> int k * c" using assms by simp
  have "[0..(int k + 1) * c - 1] = [0..int k * c - 1] @ [int k * c..(int k + 1) * c - 1]"
    using le nn upto_split1 [of 0 "int k * c" "(int k + 1) * c - 1"]
    by (cases "int k * c \<le> (int k + 1) * c - 1") (auto)
  with Suc show ?case by (simp add: algebra_simps)
qed

lemma sum_chunks:
  "sum_list (map range_len (map (\<lambda>i. (int i * c, (int i + 1) * c - 1)) [0..<k])) = int k * c"
  by (induction k) (simp_all add: range_len_def algebra_simps)

text \<open>
  C2. For every total size at least 0 and every thread count at least 1, the partition
  step returns as many ranges as threads, and they partition the bytes 0 to
  \<open>total_size - 1\<close> exactly: every range ends before every later range starts
  (ascending, pairwise disjoint), each range starts one past the end of the range
  before it (contiguous), no range has a negative length, the lengths add up to the
  total size, and the bytes of the ranges, listed range after range, are exactly
  \<open>0, 1, \<dots>, total_size - 1\<close>. (A range may be empty, written \<open>(s, s - 1)\<close>: that
  happens when the total size is smaller than the thread count.)
\<close>

theorem ranges_partition:
  assumes "0 \<le> total_size" and "1 \<le> num_threads"
  shows "\<exists>rs. compute_ranges total_size num_threads = Inr rs \<and>
           length rs = nat num_threads \<and>
           (\<forall>i j. i < j \<and> j < length rs \<longrightarrow> snd (rs ! i) < fst (rs ! j)) \<and>
           (\<forall>i. Suc i < length rs \<longrightarrow> fst (rs ! Suc i) = snd (rs ! i) + 1) \<and>
           (\<forall>r \<in> set rs. 0 \<le> range_len r) \<and>
           sum_list (map range_len rs) = total_size \<and>
           concat (map (\<lambda>r. [fst r..snd r]) rs) = [0..total_size - 1]"
proof -
  define c where "c = total_size div num_threads"
  define m where "m = nat num_threads"
  obtain rs where rs: "compute_ranges total_size num_threads = Inr rs"
    using assms(2) by (simp add: compute_ranges_Inr)
  have len: "length rs = m"
    unfolding m_def using assms(2) rs by (rule compute_ranges_length)
  have m: "0 < m" "int m = num_threads" using assms(2) by (simp_all add: m_def)
  have c0: "0 \<le> c"
    unfolding c_def using assms by (simp add: pos_imp_zdiv_nonneg_iff)
  have "0 \<le> total_size mod num_threads"
    using assms(2) by simp
  moreover have "total_size = num_threads * c + total_size mod num_threads"
    unfolding c_def by simp
  ultimately have "num_threads * c \<le> total_size" by linarith
  then have mc: "int m * c \<le> total_size" using m by simp
  have nth: "rs ! i = (int i * c, if i = m - 1 then total_size - 1 else (int i + 1) * c - 1)"
    if "i < m" for i
    using compute_ranges_nth [OF assms(2) rs, of i] that by (simp add: c_def m_def)
  have app: "rs = map (\<lambda>i. (int i * c, (int i + 1) * c - 1)) [0..<m - 1]
                  @ [(int (m - 1) * c, total_size - 1)]"
    using compute_ranges_append [OF assms(2), of total_size] rs by (simp add: c_def m_def)
  have lastlen: "int (m - 1) * c \<le> total_size"
  proof -
    have "int (m - 1) * c \<le> int m * c"
      using c0 by (intro mult_right_mono) simp_all
    with mc show ?thesis by simp
  qed
  have ord: "snd (rs ! i) < fst (rs ! j)" if "i < j" "j < m" for i j
  proof -
    from that have i: "i < m" "i \<noteq> m - 1" by simp_all
    have "(int i + 1) * c \<le> int j * c"
      using c0 that by (intro mult_right_mono) simp_all
    then show ?thesis using nth [OF i(1)] nth [OF that(2)] i(2) by simp
  qed
  have contig: "fst (rs ! Suc i) = snd (rs ! i) + 1" if "Suc i < m" for i
  proof -
    from that have i: "i < m" "i \<noteq> m - 1" by simp_all
    show ?thesis using nth [OF i(1)] nth [OF that] i(2) by simp
  qed
  have nonneg: "0 \<le> range_len r" if "r \<in> set rs" for r
  proof -
    from that obtain i where i: "i < m" "r = rs ! i"
      using len by (auto simp: in_set_conv_nth)
    show ?thesis
    proof (cases "i = m - 1")
      case True
      then show ?thesis using nth [OF i(1)] i(2) lastlen by (simp add: range_len_def)
    next
      case False
      then show ?thesis using nth [OF i(1)] i(2) c0 by (simp add: range_len_def algebra_simps)
    qed
  qed
  have total: "sum_list (map range_len rs) = total_size"
    by (subst app) (simp add: sum_chunks range_len_def del: map_map)
  have "[0..total_size - 1] = [0..int (m - 1) * c - 1] @ [int (m - 1) * c..total_size - 1]"
  proof -
    have "0 \<le> int (m - 1) * c" using c0 by simp
    then show ?thesis
      using lastlen upto_split1 [of 0 "int (m - 1) * c" "total_size - 1"]
      by (cases "int (m - 1) * c \<le> total_size - 1") auto
  qed
  then have cover: "concat (map (\<lambda>r. [fst r..snd r]) rs) = [0..total_size - 1]"
    by (subst app) (simp add: concat_chunks [OF c0] del: map_map)
  show ?thesis
  proof (intro exI [of _ rs] conjI allI impI ballI)
    show "compute_ranges total_size num_threads = Inr rs" by (rule rs)
    show "length rs = nat num_threads" using len by (simp add: m_def)
    show "snd (rs ! i) < fst (rs ! j)" if "i < j \<and> j < length rs" for i j
      using that ord [of i j] len by simp
    show "fst (rs ! Suc i) = snd (rs ! i) + 1" if "Suc i < length rs" for i
      using that contig [of i] len by simp
    show "0 \<le> range_len r" if "r \<in> set rs" for r
      using that by (rule nonneg)
    show "sum_list (map range_len rs) = total_size" by (rule total)
    show "concat (map (\<lambda>r. [fst r..snd r]) rs) = [0..total_size - 1]" by (rule cover)
  qed
qed

theorem ranges_partition_witness:
  "(0::int) \<le> 10 \<and> (1::int) \<le> 3 \<and>
   (\<exists>rs. compute_ranges 10 3 = Inr rs \<and> length rs = 3 \<and>
      snd (rs ! 0) < fst (rs ! 1) \<and> fst (rs ! Suc 0) = snd (rs ! 0) + 1 \<and>
      sum_list (map range_len rs) = 10 \<and>
      concat (map (\<lambda>r. [fst r..snd r]) rs) = [0..9])"
proof -
  from ranges_partition [of 10 3] obtain rs where
    rs: "compute_ranges 10 3 = Inr rs" "length rs = nat 3"
      "\<forall>i j. i < j \<and> j < length rs \<longrightarrow> snd (rs ! i) < fst (rs ! j)"
      "\<forall>i. Suc i < length rs \<longrightarrow> fst (rs ! Suc i) = snd (rs ! i) + 1"
      "sum_list (map range_len rs) = 10"
      "concat (map (\<lambda>r. [fst r..snd r]) rs) = [0..10 - 1]"
    by auto
  from rs(2) have len: "length rs = 3" by simp
  from rs(3) len have "snd (rs ! 0) < fst (rs ! 1)" by simp
  moreover from rs(4) len have "fst (rs ! Suc 0) = snd (rs ! 0) + 1" by simp
  ultimately show ?thesis using rs(1,5,6) len by simp
qed

text \<open>
  C3, as the claim states it, fails: with total size 0 and 8 threads the partition
  step returns eight ranges, not one.
\<close>

theorem zero_size_single_range_counterexample:
  "compute_ranges 0 8 = Inr (replicate 8 (0, - 1)) \<and> compute_ranges 0 8 \<noteq> Inr [(0, - 1)]"
  by code_simp

text \<open>
  C3, amended. For every thread count at least 1 the partition step divides by no
  zero: it returns a list of as many ranges as threads. With one thread it returns
  the single whole-file range \<open>(0, total_size - 1)\<close>. With total size 0 it returns
  one empty range \<open>(0, -1)\<close> per thread.
\<close>

theorem degenerate_partition:
  "(1 \<le> n \<longrightarrow> (\<exists>rs. compute_ranges t n = Inr rs \<and> length rs = nat n)) \<and>
   compute_ranges t 1 = Inr [(0, t - 1)] \<and>
   (1 \<le> n \<longrightarrow> compute_ranges 0 n = Inr (replicate (nat n) (0, - 1)))"
proof (intro conjI impI)
  assume n: "1 \<le> n"
  show "\<exists>rs. compute_ranges t n = Inr rs \<and> length rs = nat n"
    using n by (simp add: compute_ranges_Inr)
  show "compute_ranges 0 n = Inr (replicate (nat n) (0, - 1))"
    using n by (simp add: compute_ranges_Inr map_replicate_const list_eq_iff_nth_eq nth_list_update)
next
  show "compute_ranges t 1 = Inr [(0, t - 1)]"
    by (simp add: compute_ranges_def)
qed

theorem degenerate_partition_witness:
  "(1::int) \<le> 8 \<and> (\<exists>rs. compute_ranges 0 8 = Inr rs \<and> length rs = nat 8) \<and>
   compute_ranges 0 1 = Inr [(0, 0 - 1)] \<and>
   compute_ranges 0 8 = Inr (replicate (nat 8) (0, - 1))"
  using degenerate_partition [of 8 0] by simp

subsection \<open>Facts about reassembly\<close>

lemma write_through_frame:
  "requests (write_through f out w) = requests w"
  "stdout (write_through f out w) = stdout w"
  "dirs (write_through f out w) = dirs w"
  "dom (files (write_through f out w)) = dom (files w)"
  by (auto simp: write_through_def)

lemma combine_loop_frame:
  "combine_loop f ps out w = (r, w') \<Longrightarrow>
     requests w' = requests w \<and> stdout w' = stdout w \<and> dirs w' = dirs w"
  by (induction ps arbitrary: out w) (auto simp: write_through_frame Let_def split: option.splits)

lemma combine_loop_dom:
  "combine_loop f ps out w = (Returned, w') \<Longrightarrow> dom (files w') = dom (files w) - set ps"
proof (induction ps arbitrary: out w)
  case Nil
  then show ?case by simp
next
  case (Cons p ps)
  from Cons.prems obtain data where data: "files w p = Some data"
    by (auto split: option.splits)
  define w2 where "w2 = (write_through f (out @ data) w)
      \<lparr>files := (files (write_through f (out @ data) w))(p := None)\<rparr>"
  from Cons.prems data have "combine_loop f ps (out @ data) w2 = (Returned, w')"
    by (simp add: w2_def Let_def)
  then have "dom (files w') = dom (files w2) - set ps" by (rule Cons.IH)
  moreover have "dom (files w2) = dom (files w) - {p}"
    by (simp add: w2_def write_through_frame)
  ultimately show ?case by auto
qed

lemma combine_parts_frame:
  "combine_parts f ps w = (r, w') \<Longrightarrow>
     requests w' = requests w \<and> stdout w' = stdout w \<and> dirs w' = dirs w"
  unfolding combine_parts_def by (drule combine_loop_frame) simp

text \<open>
  C8. When \<open>combine_parts\<close> returns, every part of its list is gone from the file
  system. Each part is removed as soon as it has been appended: the rest of the loop
  runs in a state where the part it has just consumed no longer exists.
\<close>

theorem combine_parts_removes:
  "(combine_parts file_name parts w = (Returned, w') \<longrightarrow>
      (\<forall>part \<in> set parts. files w' part = None)) \<and>
   (files w part = Some data \<longrightarrow>
      (\<exists>w2. files w2 part = None \<and>
            combine_loop file_name (part # rest) out w =
            combine_loop file_name rest (out @ data) w2))"
proof (intro conjI impI)
  assume a: "combine_parts file_name parts w = (Returned, w')"
  have "dom (files w') = dom ((files w)(file_name \<mapsto> [])) - set parts"
    using combine_loop_dom [OF a [unfolded combine_parts_def]] by simp
  then show "\<forall>part \<in> set parts. files w' part = None" by (auto simp: domIff)
next
  assume a: "files w part = Some data"
  let ?w2 = "(write_through file_name (out @ data) w)
      \<lparr>files := (files (write_through file_name (out @ data) w))(part := None)\<rparr>"
  have "files ?w2 part = None" by simp
  moreover have "combine_loop file_name (part # rest) out w =
            combine_loop file_name rest (out @ data) ?w2"
    using a by (simp add: Let_def)
  ultimately show "\<exists>w2. files w2 part = None \<and>
            combine_loop file_name (part # rest) out w =
            combine_loop file_name rest (out @ data) w2" by blast
qed

theorem combine_parts_removes_witness:
  "fst (combine_parts ''f'' [''f.part1'', ''f.part0''] two_parts_world) = Returned \<and>
   files (snd (combine_parts ''f'' [''f.part1'', ''f.part0''] two_parts_world)) ''f.part1''
     = None \<and>
   files (snd (combine_parts ''f'' [''f.part1'', ''f.part0''] two_parts_world)) ''f.part0''
     = None \<and>
   files two_parts_world ''f.part1'' = Some ''y''"
proof -
  let ?c = "combine_parts ''f'' [''f.part1'', ''f.part0''] two_parts_world"
  have "fst ?c = Returned" by code_simp
  then have c: "?c = (Returned, snd ?c)" by (metis prod.collapse)
  have p: "files two_parts_world ''f.part1'' = Some ''y''" by code_simp
  from combine_parts_removes [where file_name = "''f''" and parts = "[''f.part1'', ''f.part0'']"
      and w = two_parts_world and w' = "snd ?c"] c
  have "\<forall>part \<in> set [''f.part1'', ''f.part0'']. files (snd ?c) part = None" by blast
  then have "files (snd ?c) ''f.part1'' = None" and "files (snd ?c) ''f.part0'' = None"
    by simp_all
  with \<open>fst ?c = Returned\<close> p show ?thesis by blast
qed

text \<open>
  C1 does not hold of the code: \<open>download_file\<close> hands the part files to
  \<open>combine_parts\<close> in the order the futures complete. The file has the bytes
  \<open>xy\<close> and is fetched by two threads: part 0 holds \<open>x\<close>, part 1 holds \<open>y\<close>, the
  second chunk completes first, and the file that is written holds \<open>yx\<close>.
\<close>

theorem completion_order_decides_bytes:
  "(let (futures, w) = submit_chunks demo_env ''http://up/pub/b.bin'' ''out/b.bin'' 0
                         [(0, 0), (1, 1)] empty_world
    in futures = [Inr ''out/b.bin.part0'', Inr ''out/b.bin.part1''] \<and>
       files w ''out/b.bin.part0'' = Some ''x'' \<and> files w ''out/b.bin.part1'' = Some ''y'') \<and>
   compute_ranges 2 2 = Inr [(0, 0), (1, 1)] \<and>
   as_completed demo_env ''http://up/pub/b.bin'' 2 = [1, 0] \<and>
   fst (download_file demo_env ''http://up/pub/b.bin'' ''out/b.bin'' 2 empty_world) = Returned \<and>
   files (snd (download_file demo_env ''http://up/pub/b.bin'' ''out/b.bin'' 2 empty_world))
     ''out/b.bin'' = Some ''yx''"
  by code_simp

subsection \<open>Facts about requests and printed lines\<close>

lemma head_urls_append: "head_urls (xs @ ys) = head_urls xs @ head_urls ys"
  by (induction xs rule: head_urls.induct) simp_all

lemma download_chunk_frame:
  assumes "download_chunk env url s e f k w = (r, w')"
  shows "stdout w' = stdout w" and "dirs w' = dirs w"
    and "requests w' = requests w @ [GetRange url s e]"
  using assms
  by (auto simp: download_chunk_def Let_def split: sum.splits prod.splits option.splits)

lemma submit_chunks_frame:
  assumes "submit_chunks env url f i rs w = (futs, w')"
  shows "stdout w' = stdout w \<and> dirs w' = dirs w \<and> length futs = length rs \<and>
         (\<exists>new. requests w' = requests w @ new \<and> head_urls new = [] \<and>
                 (\<forall>q \<in> set new. request_url q = url))"
  using assms
proof (induction rs arbitrary: i w futs w')
  case Nil
  then show ?case by simp
next
  case (Cons r rs)
  obtain res w1 where c: "download_chunk env url (fst r) (snd r) f i w = (res, w1)"
    by (cases "download_chunk env url (fst r) (snd r) f i w")
  obtain rest w2 where s: "submit_chunks env url f (Suc i) rs w1 = (rest, w2)"
    by (cases "submit_chunks env url f (Suc i) rs w1")
  from Cons.prems c s have eq: "futs = res # rest" "w' = w2" by simp_all
  from Cons.IH [OF s] obtain new where new: "stdout w2 = stdout w1" "dirs w2 = dirs w1"
    "length rest = length rs" "requests w2 = requests w1 @ new" "head_urls new = []"
    "\<forall>q \<in> set new. request_url q = url" by blast
  have "requests w' = requests w @ (GetRange url (fst r) (snd r) # new)"
    using new(4) download_chunk_frame(3) [OF c] eq by simp
  moreover have "head_urls (GetRange url (fst r) (snd r) # new) = []" using new(5) by simp
  moreover have "\<forall>q \<in> set (GetRange url (fst r) (snd r) # new). request_url q = url"
    using new(6) by simp
  ultimately have "\<exists>new. requests w' = requests w @ new \<and> head_urls new = [] \<and>
                 (\<forall>q \<in> set new. request_url q = url)" by blast
  then show ?case using new(1,2,3) download_chunk_frame(1,2) [OF c] eq by simp
qed

lemma download_file_effects:
  assumes "download_file env url f n w = (r, w')"
  shows "stdout w' = stdout w @ (case r of Returned \<Rightarrow> [Success (basename f)] | Raised e \<Rightarrow> [])"
    and "dirs w' = dirs w"
    and "\<exists>new. requests w' = requests w @ Head url # new \<and> head_urls new = [] \<and>
                 (\<forall>q \<in> set new. request_url q = url)"
proof -
  let ?w1 = "w\<lparr>requests := requests w @ [Head url]\<rparr>"
  let ?P = "\<lambda>r w'. stdout w' = stdout w @ (case r of Returned \<Rightarrow> [Success (basename f)] | Raised e \<Rightarrow> [])
     \<and> dirs w' = dirs w \<and> (\<exists>new. requests w' = requests w @ Head url # new \<and> head_urls new = [] \<and>
                 (\<forall>q \<in> set new. request_url q = url))"
  have "?P r w'"
  proof (cases "http_head env url")
    case (Inl x)
    with assms show ?thesis by (auto simp: download_file_def)
  next
    case (Inr cl)
    show ?thesis
    proof (cases "compute_ranges (case cl of None \<Rightarrow> 0 | Some v \<Rightarrow> v) n")
      case (Inl x)
      with assms Inr show ?thesis by (auto simp: download_file_def)
    next
      case ranges: (Inr ranges)
      obtain futs w2 where s: "submit_chunks env url f 0 ranges ?w1 = (futs, w2)"
        by (cases "submit_chunks env url f 0 ranges ?w1")
      from submit_chunks_frame [OF s] obtain new where new: "stdout w2 = stdout w"
        "dirs w2 = dirs w" "requests w2 = requests w @ Head url # new" "head_urls new = []"
        "\<forall>q \<in> set new. request_url q = url" by auto
      show ?thesis
      proof (cases "gather futs (as_completed env url (length futs)) []")
        case (Inl x)
        with assms Inr ranges s new show ?thesis by (auto simp: download_file_def)
      next
        case parts: (Inr parts)
        obtain r3 w3 where c: "combine_parts f parts w2 = (r3, w3)"
          by (cases "combine_parts f parts w2")
        from combine_parts_frame [OF c] new have w3: "stdout w3 = stdout w"
          "dirs w3 = dirs w" "requests w3 = requests w @ Head url # new" by simp_all
        from assms Inr ranges s parts c show ?thesis
          using w3 new(4,5) by (cases r3) (auto simp: download_file_def)
      qed
    qed
  qed
  then show "stdout w' = stdout w @ (case r of Returned \<Rightarrow> [Success (basename f)] | Raised e \<Rightarrow> [])"
    and "dirs w' = dirs w"
    and "\<exists>new. requests w' = requests w @ Head url # new \<and> head_urls new = [] \<and>
                 (\<forall>q \<in> set new. request_url q = url)" by blast+
qed

lemma discovered_files_simps:
  "discovered_files [] = []"
  "skip_link href \<Longrightarrow> discovered_files (href # links) = discovered_files links"
  "\<not> skip_link href \<Longrightarrow> discovered_files (href # links) = the href # discovered_files links"
  by (simp_all add: discovered_files_def)

lemma download_links_step:
  assumes "\<not> skip_link href"
    and "download_file env (b @ the href) (path_join d (the href)) n w = (r, w1)"
  shows "download_links env b d n (href # links) w =
           download_links env b d n links
             (case r of Returned \<Rightarrow> w1
                      | Raised e \<Rightarrow> w1\<lparr>stdout := stdout w1 @ [ErrorMsg (the href) e]\<rparr>)"
  using assms by (cases r) (simp_all add: Let_def)


lemma download_links_stdout:
  "\<exists>msgs. stdout (snd (download_links env b d n links w)) = stdout w @ msgs \<and>
          list_all2 (reports d) (discovered_files links) msgs"
proof (induction links arbitrary: w)
  case Nil
  show ?case by (simp add: discovered_files_simps)
next
  case (Cons href links)
  show ?case
  proof (cases "skip_link href")
    case True
    then show ?thesis using Cons.IH [of w] by (simp add: discovered_files_simps)
  next
    case False
    obtain r w1 where f: "download_file env (b @ the href) (path_join d (the href)) n w = (r, w1)"
      by (cases "download_file env (b @ the href) (path_join d (the href)) n w")
    let ?w2 = "case r of Returned \<Rightarrow> w1
                      | Raised e \<Rightarrow> w1\<lparr>stdout := stdout w1 @ [ErrorMsg (the href) e]\<rparr>"
    obtain m where m: "stdout ?w2 = stdout w @ [m]" "reports d (the href) m"
      using download_file_effects(1) [OF f] by (cases r) (simp_all add: reports_def)
    from Cons.IH [of ?w2] obtain msgs where
      msgs: "stdout (snd (download_links env b d n links ?w2)) = stdout ?w2 @ msgs"
        "list_all2 (reports d) (discovered_files links) msgs" by blast
    have "stdout (snd (download_links env b d n (href # links) w)) = stdout w @ (m # msgs)"
      unfolding download_links_step [OF False f] using msgs(1) m(1) by simp
    moreover have "list_all2 (reports d) (discovered_files (href # links)) (m # msgs)"
      using False m(2) msgs(2) by (simp add: discovered_files_simps)
    ultimately show ?thesis by blast
  qed
qed

lemma download_links_requests:
  "\<exists>new. requests (snd (download_links env b d n links w)) = requests w @ new \<and>
          head_urls new = map (\<lambda>file_name. b @ file_name) (discovered_files links) \<and>
          (\<forall>q \<in> set new. \<exists>file_name \<in> set (discovered_files links). request_url q = b @ file_name)"
proof (induction links arbitrary: w)
  case Nil
  show ?case by (simp add: discovered_files_simps)
next
  case (Cons href links)
  show ?case
  proof (cases "skip_link href")
    case True
    then show ?thesis using Cons.IH [of w] by (simp add: discovered_files_simps)
  next
    case False
    obtain r w1 where f: "download_file env (b @ the href) (path_join d (the href)) n w = (r, w1)"
      by (cases "download_file env (b @ the href) (path_join d (the href)) n w")
    let ?w2 = "case r of Returned \<Rightarrow> w1
                      | Raised e \<Rightarrow> w1\<lparr>stdout := stdout w1 @ [ErrorMsg (the href) e]\<rparr>"
    from download_file_effects(3) [OF f] obtain new1 where
      new1: "requests w1 = requests w @ Head (b @ the href) # new1" "head_urls new1 = []"
        "\<forall>q \<in> set new1. request_url q = b @ the href" by blast
    have r2: "requests ?w2 = requests w1" by (cases r) simp_all
    from Cons.IH [of ?w2] obtain new2 where
      new2: "requests (snd (download_links env b d n links ?w2)) = requests ?w2 @ new2"
        "head_urls new2 = map (\<lambda>file_name. b @ file_name) (discovered_files links)"
        "\<forall>q \<in> set new2. \<exists>file_name \<in> set (discovered_files links). request_url q = b @ file_name"
      by blast
    let ?new = "Head (b @ the href) # new1 @ new2"
    have "requests (snd (download_links env b d n (href # links) w)) = requests w @ ?new"
      unfolding download_links_step [OF False f] using new2(1) r2 new1(1) by simp
    moreover have "head_urls ?new = map (\<lambda>file_name. b @ file_name) (discovered_files (href # links))"
      using False new1(2) new2(2) by (simp add: discovered_files_simps head_urls_append)
    moreover have "\<forall>q \<in> set ?new. \<exists>file_name \<in> set (discovered_files (href # links)).
                      request_url q = b @ file_name"
      using False new1(3) new2(3) by (auto simp: discovered_files_simps)
    ultimately show ?thesis by blast
  qed
qed

lemma skip_link_iff:
  "\<not> skip_link href \<longleftrightarrow>
     (\<exists>f. href = Some f \<and> f \<noteq> [] \<and> hd f \<noteq> CHR ''?'' \<and> last f \<noteq> CHR ''/'' \<and> f \<noteq> ''../'')"
proof (cases href)
  case None
  then show ?thesis by (simp add: skip_link_def)
next
  case (Some f)
  have s: "f \<noteq> [] \<Longrightarrow> startswith f ''?'' \<longleftrightarrow> hd f = CHR ''?''"
    by (cases f) (simp_all add: startswith_def)
  have e: "f \<noteq> [] \<Longrightarrow> endswith f ''/'' \<longleftrightarrow> last f = CHR ''/''"
    by (cases f rule: rev_cases) (simp_all add: endswith_def)
  show ?thesis using Some s e by (auto simp: skip_link_def)
qed

lemma kept_names:
  "discovered_files links =
     [f. Some f \<leftarrow> links,
         f \<noteq> [] \<and> hd f \<noteq> CHR ''?'' \<and> last f \<noteq> CHR ''/'' \<and> f \<noteq> ''../'']"
proof (induction links)
  case Nil
  show ?case by (simp add: discovered_files_simps)
next
  case (Cons href links)
  show ?case
  proof (cases href)
    case None
    then have "skip_link href" by (simp add: skip_link_def)
    then show ?thesis using Cons.IH None by (simp add: discovered_files_simps)
  next
    case (Some f)
    show ?thesis
    proof (cases "skip_link href")
      case True
      then have "\<not> (f \<noteq> [] \<and> hd f \<noteq> CHR ''?'' \<and> last f \<noteq> CHR ''/'' \<and> f \<noteq> ''../'')"
        using skip_link_iff [of href] Some by simp
      then show ?thesis using True Cons.IH Some by (simp add: discovered_files_simps)
    next
      case False
      then have "f \<noteq> [] \<and> hd f \<noteq> CHR ''?'' \<and> last f \<noteq> CHR ''/'' \<and> f \<noteq> ''../''"
        using skip_link_iff [of href] Some by simp
      then show ?thesis using False Cons.IH Some by (simp add: discovered_files_simps)
    qed
  qed
qed







lemma download_directory_listed:
  assumes "http_get_page env url = Inr page"
  shows "download_directory env url d n w =
           (case ensure_folder env d (w\<lparr>requests := requests w @ [GetPage url]\<rparr>) of
              (Raised x, w2) \<Rightarrow> (Raised x, w2)
            | (Returned, w2) \<Rightarrow> download_links env url d n (find_all_a env page) w2)"
  using assms by (simp add: download_directory_def Let_def)

lemma download_directory_folder_raises:
  assumes "http_get_page env url = Inr page"
    and "ensure_folder env d (w\<lparr>requests := requests w @ [GetPage url]\<rparr>) = (Raised x, w2)"
  shows "download_directory env url d n w = (Raised x, w2)"
  using assms by (simp add: download_directory_listed)










text \<open>
  C9. The loop of \<open>download_directory\<close> starts a download for exactly the anchors whose
  \<open>href\<close> is present and not empty, does not start with \<open>?\<close>, does not end with
  \<open>/\<close> and is not \<open>../\<close>: the \<open>HEAD\<close> requests it sends are those of these names,
  one each and in the order of the page, and the lines it prints report on these
  names, one each. On the anchors \<open>file1.zip\<close>, \<open>../\<close>, \<open>?sort=name\<close> and
  \<open>subdir/\<close> it sends one \<open>HEAD\<close> request, for \<open>file1.zip\<close>.
\<close>

theorem listing_filter:
  "(\<exists>new. requests (snd (download_links env base_url destination_folder num_threads links w))
            = requests w @ new \<and>
          head_urls new =
            map (\<lambda>file_name. base_url @ file_name)
              [f. Some f \<leftarrow> links,
                  f \<noteq> [] \<and> hd f \<noteq> CHR ''?'' \<and> last f \<noteq> CHR ''/'' \<and> f \<noteq> ''../'']) \<and>
   (\<exists>msgs. stdout (snd (download_links env base_url destination_folder num_threads links w))
             = stdout w @ msgs \<and>
           list_all2 (reports destination_folder)
             [f. Some f \<leftarrow> links,
                 f \<noteq> [] \<and> hd f \<noteq> CHR ''?'' \<and> last f \<noteq> CHR ''/'' \<and> f \<noteq> ''../'']
             msgs) \<and>
   head_urls (requests (snd (download_links env base_url destination_folder num_threads
       [Some ''file1.zip'', Some ''../'', Some ''?sort=name'', Some ''subdir/''] w)))
     = head_urls (requests w) @ [base_url @ ''file1.zip'']"
proof (intro conjI)
  show "\<exists>new. requests (snd (download_links env base_url destination_folder num_threads links w))
            = requests w @ new \<and>
          head_urls new =
            map (\<lambda>file_name. base_url @ file_name)
              [f. Some f \<leftarrow> links,
                  f \<noteq> [] \<and> hd f \<noteq> CHR ''?'' \<and> last f \<noteq> CHR ''/'' \<and> f \<noteq> ''../'']"
    using download_links_requests [of env base_url destination_folder num_threads links w]
    unfolding kept_names by blast
  show "\<exists>msgs. stdout (snd (download_links env base_url destination_folder num_threads links w))
             = stdout w @ msgs \<and>
           list_all2 (reports destination_folder)
             [f. Some f \<leftarrow> links,
                 f \<noteq> [] \<and> hd f \<noteq> CHR ''?'' \<and> last f \<noteq> CHR ''/'' \<and> f \<noteq> ''../'']
             msgs"
    using download_links_stdout [of env base_url destination_folder num_threads links w]
    unfolding kept_names by blast
  let ?links = "[Some ''file1.zip'', Some ''../'', Some ''?sort=name'', Some ''subdir/'']"
  have d: "discovered_files ?links = [''file1.zip'']" by code_simp
  from download_links_requests [of env base_url destination_folder num_threads ?links w]
  obtain new where
    "requests (snd (download_links env base_url destination_folder num_threads ?links w))
       = requests w @ new"
    "head_urls new = map (\<lambda>file_name. base_url @ file_name) (discovered_files ?links)"
    by blast
  then show "head_urls (requests (snd (download_links env base_url destination_folder
       num_threads ?links w))) = head_urls (requests w) @ [base_url @ ''file1.zip'']"
    by (simp add: head_urls_append d)
qed

theorem listing_filter_witness:
  "head_urls (requests (snd (download_links demo_env ''http://up/pub/'' ''out/pub'' 2
       [Some ''../'', Some ''b.bin'', None, Some ''?C=N;O=D''] empty_world)))
     = [''http://up/pub/b.bin''] \<and>
   head_urls (requests (snd (download_links demo_env ''http://up/pub/'' ''out/pub'' 2
       [Some ''file1.zip'', Some ''../'', Some ''?sort=name'', Some ''subdir/''] empty_world)))
     = [''http://up/pub/file1.zip'']"
proof -
  let ?links = "[Some ''../'', Some ''b.bin'', None, Some ''?C=N;O=D'']"
  let ?w = "snd (download_links demo_env ''http://up/pub/'' ''out/pub'' 2 ?links empty_world)"
  note inst = listing_filter [of demo_env "''http://up/pub/''" "''out/pub''" 2 ?links
      empty_world]
  from inst obtain new where new: "requests ?w = requests empty_world @ new"
    "head_urls new = map (\<lambda>file_name. ''http://up/pub/'' @ file_name)
       [f. Some f \<leftarrow> ?links,
           f \<noteq> [] \<and> hd f \<noteq> CHR ''?'' \<and> last f \<noteq> CHR ''/'' \<and> f \<noteq> ''../'']"
    by blast
  have "requests ?w = new" using new(1) by (simp add: empty_world_def)
  then have first: "head_urls (requests ?w) = [''http://up/pub/b.bin'']"
    using new(2) by simp
  have "head_urls (requests empty_world) = []" by (simp add: empty_world_def)
  with inst have "head_urls (requests (snd (download_links demo_env ''http://up/pub/''
       ''out/pub'' 2 [Some ''file1.zip'', Some ''../'', Some ''?sort=name'', Some ''subdir/'']
       empty_world))) = [''http://up/pub/file1.zip'']"
    by simp
  with first show ?thesis by simp
qed

text \<open>
  C10. The requests that the loop of \<open>download_directory\<close> adds are those of its file
  downloads: one \<open>HEAD\<close> per kept file name, in order, sent to the base URL followed
  directly by the file name, and every other request goes to such a URL as well.
  Nothing is put between the two strings: with the base URL \<open>http://up/pub\<close> the
  file \<open>b.bin\<close> is asked for at \<open>http://up/pubb.bin\<close>.
\<close>

theorem file_url_is_concatenation:
  "\<exists>new. requests (snd (download_links env base_url destination_folder num_threads links w))
            = requests w @ new \<and>
          head_urls new = map (\<lambda>file_name. base_url @ file_name) (discovered_files links) \<and>
          (\<forall>q \<in> set new. \<exists>file_name \<in> set (discovered_files links).
              request_url q = base_url @ file_name)"
  by (rule download_links_requests)

theorem file_url_is_concatenation_witness:
  "head_urls (requests (snd (download_links demo_env ''http://up/pub'' ''out/pub'' 2
      [Some ''b.bin''] empty_world))) = [''http://up/pubb.bin''] \<and>
   set (map request_url (requests (snd (download_links demo_env ''http://up/pub'' ''out/pub'' 2
      [Some ''b.bin''] empty_world)))) \<subseteq> {''http://up/pubb.bin''}"
proof -
  let ?w = "snd (download_links demo_env ''http://up/pub'' ''out/pub'' 2 [Some ''b.bin'']
                   empty_world)"
  have d: "discovered_files [Some ''b.bin''] = [''b.bin'']" by code_simp
  from file_url_is_concatenation [of demo_env "''http://up/pub''" "''out/pub''" 2
      "[Some ''b.bin'']" empty_world]
  obtain new where new: "requests ?w = requests empty_world @ new"
    "head_urls new = map (\<lambda>file_name. ''http://up/pub'' @ file_name)
                       (discovered_files [Some ''b.bin''])"
    "\<forall>q \<in> set new. \<exists>file_name \<in> set (discovered_files [Some ''b.bin'']).
        request_url q = ''http://up/pub'' @ file_name"
    by blast
  have "requests ?w = new" using new(1) by (simp add: empty_world_def)
  then show ?thesis using new(2,3) d by auto
qed






subsection \<open>Facts about the destination folder\<close>

lemma split_not_Nil: "split c s \<noteq> []"
  by (induction s) (auto split: list.splits)

text \<open>
  C5 does not hold of the code for a URL with an empty path. \<open>split\<close> never returns
  the empty list, so the folder name is always the last segment of the stripped path
  and the default name is never chosen: for the paths \<open>''\<close> and \<open>/\<close> the folder
  name is the empty string. For \<open>/data/archive/\<close> it is \<open>archive\<close>, as claimed.
\<close>

theorem folder_name_fallback_unreachable:
  "folder_name_of_path path = last (split CHR ''/'' (strip CHR ''/'' path)) \<and>
   folder_name_of_path '''' = '''' \<and>
   folder_name_of_path ''/'' = '''' \<and>
   folder_name_of_path ''/data/archive/'' = ''archive''"
  by (simp add: folder_name_of_path_def split_not_Nil strip_def)

end
